theory Spec2Isabelle
  imports Main
begin

section \<open>Strings, errors and Python built-ins\<close>

text \<open>
  A Python \<open>str\<close> is a sequence of Unicode code points. It is modelled as a list of
  natural numbers, one per code point, so that \<open>len\<close> counts what Python counts and the
  emoji of \<open>format_feedback\<close> are single characters. \<open>str\<close> turns an ASCII literal
  into that representation. Python integers are \<open>int\<close>; list indices and loop
  counters of \<open>range(5)\<close> are \<open>nat\<close>.
\<close>

type_synonym codepoint = nat
type_synonym pystr = "codepoint list"

definition str :: "string \<Rightarrow> pystr" where
  "str s = map of_char s"

text \<open>The exceptions the functions of \<open>wordle.py\<close> can raise.\<close>

datatype py_error = IndexError | KeyError | ValueError

text \<open>\<open>xs.index(x)\<close>: the position of the first occurrence; Python raises when there is none.\<close>

fun index :: "'a list \<Rightarrow> 'a \<Rightarrow> nat option" where
  "index [] x = None"
| "index (y # ys) x = (if y = x then Some 0 else map_option Suc (index ys x))"

section \<open>evaluate_guess\<close>

text \<open>
  The two loops of \<open>evaluate_guess\<close> thread the pair \<open>(feedback, secret_chars)\<close>.
  A consumed slot of \<open>secret_chars\<close> holds Python's \<open>None\<close>. Reading \<open>guess[i]\<close> or
  \<open>secret[i]\<close> beyond the end of the string raises \<open>IndexError\<close>.
\<close>

type_synonym eval_state = "int list \<times> codepoint option list"

fun first_pass :: "pystr \<Rightarrow> pystr \<Rightarrow> nat list \<Rightarrow> eval_state \<Rightarrow> py_error + eval_state" where
  "first_pass guess secret [] st = Inr st"
| "first_pass guess secret (i # rest) (feedback, secret_chars) =
     (if length guess \<le> i \<or> length secret \<le> i then Inl IndexError
      else if guess ! i = secret ! i
        then first_pass guess secret rest (feedback[i := 2], secret_chars[i := None])
        else first_pass guess secret rest (feedback, secret_chars))"

fun second_pass :: "pystr \<Rightarrow> nat list \<Rightarrow> eval_state \<Rightarrow> py_error + eval_state" where
  "second_pass guess [] st = Inr st"
| "second_pass guess (i # rest) (feedback, secret_chars) =
     (if feedback ! i = 0
      then (if length guess \<le> i then Inl IndexError
            else if Some (guess ! i) \<in> set secret_chars
              then (case index secret_chars (Some (guess ! i)) of
                      None \<Rightarrow> Inl ValueError
                    | Some k \<Rightarrow>
                        second_pass guess rest (feedback[i := 1], secret_chars[k := None]))
              else second_pass guess rest (feedback, secret_chars))
      else second_pass guess rest (feedback, secret_chars))"

definition evaluate_guess :: "pystr \<Rightarrow> pystr \<Rightarrow> py_error + int list" where
  "evaluate_guess guess secret =
     (case first_pass guess secret [0..<5] (replicate 5 0, map Some secret) of
        Inl e \<Rightarrow> Inl e
      | Inr st \<Rightarrow>
          (case second_pass guess [0..<5] st of
             Inl e \<Rightarrow> Inl e
           | Inr (feedback, secret_chars) \<Rightarrow> Inr feedback))"

text \<open>
  The number of positions among the five that the feedback marks 2 (EXACT) or 1 (PRESENT)
  and where the guess has the letter \<open>L\<close>.
\<close>

definition credited :: "codepoint \<Rightarrow> pystr \<Rightarrow> int list \<Rightarrow> nat" where
  "credited L guess feedback =
     length (filter (\<lambda>i. (feedback ! i = 2 \<or> feedback ! i = 1) \<and> guess ! i = L) [0..<5])"

section \<open>feedback_string_to_list and format_feedback\<close>

text \<open>
  \<open>s.strip()\<close> removes leading and trailing characters for which \<open>str.isspace\<close> holds;
  the set below is Python's. \<open>s.lower()\<close> is modelled on ASCII: \<open>A\<close> to \<open>Z\<close> become
  \<open>a\<close> to \<open>z\<close> and every other code point stays as it is (Python also lowers cased
  letters beyond ASCII; none of them becomes \<open>g\<close>, \<open>y\<close> or \<open>b\<close>).
\<close>

definition isspace :: "codepoint \<Rightarrow> bool" where
  "isspace c \<longleftrightarrow>
     (9 \<le> c \<and> c \<le> 13) \<or> (28 \<le> c \<and> c \<le> 32) \<or> c = 133 \<or> c = 160 \<or> c = 5760 \<or>
     (8192 \<le> c \<and> c \<le> 8202) \<or> c = 8232 \<or> c = 8233 \<or> c = 8239 \<or> c = 8287 \<or> c = 12288"

definition strip :: "pystr \<Rightarrow> pystr" where
  "strip s = rev (dropWhile isspace (rev (dropWhile isspace s)))"

definition lower :: "pystr \<Rightarrow> pystr" where
  "lower s = map (\<lambda>c. if 65 \<le> c \<and> c \<le> 90 then c + 32 else c) s"

text \<open>The dictionary \<open>{"g":2, "y":1, "b":0}\<close>; a missing key raises \<open>KeyError\<close>.\<close>

definition fb_codes :: "codepoint \<rightharpoonup> int" where
  "fb_codes = map_of [(of_char CHR ''g'', 2), (of_char CHR ''y'', 1), (of_char CHR ''b'', 0)]"

fun decode_chars :: "pystr \<Rightarrow> py_error + int list" where
  "decode_chars [] = Inr []"
| "decode_chars (ch # rest) =
     (case fb_codes ch of
        None \<Rightarrow> Inl KeyError
      | Some v \<Rightarrow> (case decode_chars rest of Inl e \<Rightarrow> Inl e | Inr vs \<Rightarrow> Inr (v # vs)))"

definition feedback_string_to_list :: "pystr \<Rightarrow> py_error + int list" where
  "feedback_string_to_list raw =
     (let fb_str = lower (strip raw) in
      if length fb_str \<noteq> 5 \<or> list_ex (\<lambda>ch. ch \<notin> set (str ''gyb'')) fb_str
      then Inl ValueError
      else decode_chars fb_str)"

text \<open>
  The dictionary \<open>symbols\<close> of \<open>format_feedback\<close>: 2 is the green square U+1F7E9, 1 the
  yellow square U+1F7E8, 0 the white square U+2B1C.
\<close>

definition symbols :: "int \<rightharpoonup> codepoint" where
  "symbols = map_of [(2, 129001), (1, 129000), (0, 11036)]"

fun join_symbols :: "int list \<Rightarrow> py_error + pystr" where
  "join_symbols [] = Inr []"
| "join_symbols (f # rest) =
     (case symbols f of
        None \<Rightarrow> Inl KeyError
      | Some c \<Rightarrow> (case join_symbols rest of Inl e \<Rightarrow> Inl e | Inr cs \<Rightarrow> Inr (c # cs)))"

definition format_feedback :: "pystr \<Rightarrow> int list \<Rightarrow> py_error + pystr" where
  "format_feedback guess feedback =
     (case join_symbols feedback of
        Inl e \<Rightarrow> Inl e
      | Inr cs \<Rightarrow> Inr (cs @ str ''   ('' @ guess @ str '')''))"

section \<open>filter_candidates\<close>

fun filter_loop :: "pystr list \<Rightarrow> pystr \<Rightarrow> int list \<Rightarrow> pystr list \<Rightarrow> py_error + pystr list" where
  "filter_loop [] last_guess last_fb out = Inr out"
| "filter_loop (w # ws) last_guess last_fb out =
     (case evaluate_guess last_guess w of
        Inl e \<Rightarrow> Inl e
      | Inr fb \<Rightarrow> filter_loop ws last_guess last_fb (if fb = last_fb then out @ [w] else out))"

definition filter_candidates :: "pystr list \<Rightarrow> pystr \<Rightarrow> int list \<Rightarrow> py_error + pystr list" where
  "filter_candidates cands last_guess last_fb = filter_loop cands last_guess last_fb []"

section \<open>pick_smart\<close>

definition VOWELS :: "codepoint set" where
  "VOWELS = set (str ''aeiou'')"

text \<open>\<open>sum(1 for ch in w if ch in VOWELS)\<close>\<close>

definition vowel_count :: "pystr \<Rightarrow> int" where
  "vowel_count w = sum_list (map (\<lambda>ch. 1) (filter (\<lambda>ch. ch \<in> VOWELS) w))"

text \<open>\<open>max\<close> of a sequence keeps the largest element seen; on an empty one it raises \<open>ValueError\<close>.\<close>

fun py_max :: "int list \<Rightarrow> py_error + int" where
  "py_max [] = Inl ValueError"
| "py_max (x # xs) = Inr (fold (\<lambda>y m. if y > m then y else m) xs x)"

text \<open>
  \<open>freq\<close> is a list of five dictionaries, each with the keys \<open>a\<close> to \<open>z\<close>.
  \<open>freq[i]\<close> raises \<open>IndexError\<close> for \<open>i\<close> of 5 or more and \<open>freq[i][ch]\<close> raises
  \<open>KeyError\<close> for a character that is not a key.
\<close>

type_synonym freq_table = "(codepoint \<rightharpoonup> int) list"

definition fromkeys :: "pystr \<Rightarrow> int \<Rightarrow> (codepoint \<rightharpoonup> int)" where
  "fromkeys ks v = map_of (map (\<lambda>k. (k, v)) ks)"

definition init_freq :: freq_table where
  "init_freq = replicate 5 (fromkeys (str ''abcdefghijklmnopqrstuvwxyz'') 0)"

fun count_word :: "(nat \<times> codepoint) list \<Rightarrow> freq_table \<Rightarrow> py_error + freq_table" where
  "count_word [] freq = Inr freq"
| "count_word ((i, ch) # rest) freq =
     (if length freq \<le> i then Inl IndexError
      else (case (freq ! i) ch of
              None \<Rightarrow> Inl KeyError
            | Some n \<Rightarrow> count_word rest (freq[i := (freq ! i)(ch \<mapsto> n + 1)])))"

fun count_words :: "pystr list \<Rightarrow> freq_table \<Rightarrow> py_error + freq_table" where
  "count_words [] freq = Inr freq"
| "count_words (w # ws) freq =
     (case count_word (enumerate 0 w) freq of
        Inl e \<Rightarrow> Inl e
      | Inr freq' \<Rightarrow> count_words ws freq')"

fun score_word :: "freq_table \<Rightarrow> (nat \<times> codepoint) list \<Rightarrow> codepoint set \<Rightarrow> int \<Rightarrow> py_error + int" where
  "score_word freq [] seen score = Inr score"
| "score_word freq ((i, ch) # rest) seen score =
     (if ch \<in> seen then score_word freq rest seen score
      else if length freq \<le> i then Inl IndexError
      else (case (freq ! i) ch of
              None \<Rightarrow> Inl KeyError
            | Some n \<Rightarrow> score_word freq rest (insert ch seen) (score + n)))"

fun best_loop :: "freq_table \<Rightarrow> pystr list \<Rightarrow> int \<times> pystr \<Rightarrow> py_error + pystr" where
  "best_loop freq [] (best_score, best_word) = Inr best_word"
| "best_loop freq (w # ws) (best_score, best_word) =
     (case score_word freq (enumerate 0 w) {} 0 of
        Inl e \<Rightarrow> Inl e
      | Inr score \<Rightarrow>
          best_loop freq ws
            (if score > best_score then (score, w) else (best_score, best_word)))"

definition pick_smart :: "pystr list \<Rightarrow> py_error + pystr" where
  "pick_smart cands =
     (case py_max (map vowel_count cands) of
        Inl e \<Rightarrow> Inl e
      | Inr max_vowel \<Rightarrow>
          (case filter (\<lambda>w. vowel_count w = max_vowel) cands of
             [] \<Rightarrow> Inl IndexError
           | w0 # more \<Rightarrow>
               if length (w0 # more) = 1 then Inr w0
               else (case count_words cands init_freq of
                       Inl e \<Rightarrow> Inl e
                     | Inr freq \<Rightarrow> best_loop freq (w0 # more) (- 1, w0))))"

section \<open>The specification of the selector\<close>

text \<open>
  A word of the data model: five characters, each a lowercase letter \<open>a\<close> to \<open>z\<close>.
\<close>

definition lowercase :: "codepoint set" where
  "lowercase = set (str ''abcdefghijklmnopqrstuvwxyz'')"

definition word :: "pystr \<Rightarrow> bool" where
  "word w \<longleftrightarrow> length w = 5 \<and> list_all (\<lambda>c. c \<in> lowercase) w"

text \<open>
  The selector as the specification words it, to be compared with \<open>pick_smart\<close>:
  the vowel-heavy subset holds the words of the pool whose vowel count is maximal, in pool
  order; the position-frequency table counts, for a position and a letter, the words of the
  whole pool with that letter at that position; the score of a word sums the table over
  its five positions, skipping a position whose letter already occurs at an earlier one.
\<close>

definition spec_vowel_heavy :: "pystr list \<Rightarrow> pystr list" where
  "spec_vowel_heavy pool =
     filter (\<lambda>w. list_all (\<lambda>v. vowel_count v \<le> vowel_count w) pool) pool"

definition spec_table :: "pystr list \<Rightarrow> nat \<Rightarrow> codepoint \<Rightarrow> int" where
  "spec_table pool i c = int (length (filter (\<lambda>w. i < length w \<and> w ! i = c) pool))"

definition spec_score :: "pystr list \<Rightarrow> pystr \<Rightarrow> int" where
  "spec_score pool w =
     (\<Sum>i\<leftarrow>[0..<5]. if w ! i \<in> set (take i w) then 0 else spec_table pool i (w ! i))"

section \<open>Evaluating the model on concrete inputs\<close>

lemma upt5: "[0..<5] = [0, 1, 2, 3, 4]"
  by (simp add: upt_rec)

lemma replicate5: "replicate 5 x = [x, x, x, x, x]"
  by (simp add: eval_nat_numeral)

lemma length5E:
  assumes "length w = 5"
  obtains a b c d e where "w = [a, b, c, d, e]"
  using assms by (auto simp: length_Suc_conv eval_nat_numeral)

section \<open>Properties of evaluate_guess\<close>

text \<open>
  C5 (as stated): \<open>evaluate_guess("speed", "erase")\<close> is [PRESENT, ABSENT, PRESENT, ABSENT,
  ABSENT], that is \<open>[1, 0, 1, 0, 0]\<close>. The code returns something else: the secret has two
  \<open>e\<close>, neither matched exactly, so both \<open>e\<close> of the guess are credited.
\<close>

theorem evaluate_guess_speed_erase_not_claimed:
  "evaluate_guess (str ''speed'') (str ''erase'') \<noteq> Inr [1, 0, 1, 0, 0]"
  by (simp add: evaluate_guess_def str_def upt5 replicate5)

text \<open>
  C5 (amended): \<open>evaluate_guess("speed", "erase")\<close> returns [PRESENT, ABSENT, PRESENT,
  PRESENT, ABSENT], that is \<open>[1, 0, 1, 1, 0]\<close>.
\<close>

theorem evaluate_guess_speed_erase:
  "evaluate_guess (str ''speed'') (str ''erase'') = Inr [1, 0, 1, 1, 0]"
  by (simp add: evaluate_guess_def str_def upt5 replicate5)

text \<open>
  C8: for every word \<open>w\<close> of length 5, \<open>evaluate_guess(w, w)\<close> returns the feedback whose
  five positions are all 2 (EXACT).
\<close>

theorem evaluate_guess_self:
  "length w = 5 \<Longrightarrow> evaluate_guess w w = Inr [2, 2, 2, 2, 2]"
  by (erule length5E) (simp add: evaluate_guess_def upt5 replicate5)

theorem evaluate_guess_self_witness:
  "length (str ''crane'') = 5 \<and>
   evaluate_guess (str ''crane'') (str ''crane'') = Inr [2, 2, 2, 2, 2]"
  using evaluate_guess_self [of "str ''crane''"] by (simp add: str_def)

section \<open>Properties of the feedback codec\<close>


lemma str_gyb: "set (str ''gyb'') = {103, 121, 98}"
  by (simp add: str_def)

lemma decode_chars_gyb:
  "set s \<subseteq> {103, 121, 98} \<Longrightarrow>
   decode_chars s = Inr (map (\<lambda>ch. if ch = 103 then 2 else if ch = 121 then 1 else 0) s)"
  by (induction s) (auto simp: fb_codes_def)

lemma strip_no_space_ends:
  assumes "s \<noteq> []" "\<not> isspace (hd s)" "\<not> isspace (last s)"
  shows "strip s = s"
proof -
  have "dropWhile isspace s = s"
    using assms by (simp add: dropWhile_eq_self_iff)
  moreover have "dropWhile isspace (rev s) = rev s"
    using assms by (simp add: dropWhile_eq_self_iff hd_rev)
  ultimately show ?thesis by (simp add: strip_def)
qed

lemma length_lower: "length (lower s) = length s"
  by (simp add: lower_def)

lemma join_symbols_valid:
  "set c \<subseteq> {0, 1, 2} \<Longrightarrow>
   join_symbols c = Inr (map (\<lambda>f. if f = 2 then 129001 else if f = 1 then 129000 else 11036) c)"
  by (induction c) (auto simp: symbols_def)

text \<open>
  C4: after \<open>strip\<close> and \<open>lower\<close>, \<open>feedback_string_to_list\<close> raises \<open>ValueError\<close> (the
  code's invalid-feedback error) exactly when the normalized input does not have length 5
  or has a character other than \<open>g\<close>, \<open>y\<close>, \<open>b\<close>; otherwise it returns a list of
  length 5 whose entry at each position is 2 for \<open>g\<close>, 1 for \<open>y\<close> and 0 for \<open>b\<close>.
  It raises for \<open>"ggyb"\<close>, \<open>"ggybx"\<close> and \<open>""\<close>.
\<close>

theorem feedback_string_to_list_fails_iff:
  "(length (lower (strip raw)) \<noteq> 5 \<or> \<not> set (lower (strip raw)) \<subseteq> set (str ''gyb'') \<longrightarrow>
      feedback_string_to_list raw = Inl ValueError) \<and>
   (length (lower (strip raw)) = 5 \<and> set (lower (strip raw)) \<subseteq> set (str ''gyb'') \<longrightarrow>
      (\<exists>c. feedback_string_to_list raw = Inr c \<and> length c = 5 \<and>
           (\<forall>i<5. (lower (strip raw) ! i = of_char CHR ''g'' \<longrightarrow> c ! i = 2) \<and>
                  (lower (strip raw) ! i = of_char CHR ''y'' \<longrightarrow> c ! i = 1) \<and>
                  (lower (strip raw) ! i = of_char CHR ''b'' \<longrightarrow> c ! i = 0)))) \<and>
   feedback_string_to_list (str ''ggyb'') = Inl ValueError \<and>
   feedback_string_to_list (str ''ggybx'') = Inl ValueError \<and>
   feedback_string_to_list (str '''') = Inl ValueError"
proof (intro conjI impI)
  assume "length (lower (strip raw)) \<noteq> 5 \<or> \<not> set (lower (strip raw)) \<subseteq> set (str ''gyb'')"
  then show "feedback_string_to_list raw = Inl ValueError"
    by (auto simp: feedback_string_to_list_def Let_def list_ex_iff)
next
  assume a: "length (lower (strip raw)) = 5 \<and> set (lower (strip raw)) \<subseteq> set (str ''gyb'')"
  let ?s = "lower (strip raw)"
  from a have sub: "set ?s \<subseteq> {103, 121, 98}" by (simp add: str_gyb)
  have "\<not> list_ex (\<lambda>ch. ch \<notin> set (str ''gyb'')) ?s"
    using a by (auto simp: list_ex_iff)
  with a have "feedback_string_to_list raw = decode_chars ?s"
    by (simp add: feedback_string_to_list_def Let_def)
  then have "feedback_string_to_list raw =
      Inr (map (\<lambda>ch. if ch = 103 then 2 else if ch = 121 then 1 else 0) ?s)"
    by (simp add: decode_chars_gyb [OF sub])
  with a show "\<exists>c. feedback_string_to_list raw = Inr c \<and> length c = 5 \<and>
           (\<forall>i<5. (?s ! i = of_char CHR ''g'' \<longrightarrow> c ! i = 2) \<and>
                  (?s ! i = of_char CHR ''y'' \<longrightarrow> c ! i = 1) \<and>
                  (?s ! i = of_char CHR ''b'' \<longrightarrow> c ! i = 0))"
    by simp
qed (simp_all add: feedback_string_to_list_def strip_def lower_def isspace_def str_def)

theorem feedback_string_to_list_fails_iff_witness:
  "length (lower (strip (str '' GyBbg  ''))) = 5 \<and>
   set (lower (strip (str '' GyBbg  ''))) \<subseteq> set (str ''gyb'') \<and>
   feedback_string_to_list (str '' GyBbg  '') = Inr [2, 1, 0, 0, 2] \<and>
   (length (lower (strip (str ''gg''))) \<noteq> 5 \<and> feedback_string_to_list (str ''gg'') = Inl ValueError)"
  using feedback_string_to_list_fails_iff [of "str '' GyBbg  ''"] feedback_string_to_list_fails_iff [of "str ''gg''"]
  by (simp add: strip_def lower_def isspace_def str_def feedback_string_to_list_def fb_codes_def)

text \<open>
  C6 (as stated): decoding the encoding of a classification gives the classification back.
  The only encoder of the code is \<open>format_feedback\<close>, which renders emoji followed by the
  guess in parentheses; \<open>feedback_string_to_list\<close> rejects that string.
\<close>

theorem format_feedback_not_decodable:
  "format_feedback (str ''crane'') [2, 1, 0, 0, 2] =
     Inr ([129001, 129000, 11036, 11036, 129001] @ str ''   (crane)'') \<and>
   feedback_string_to_list ([129001, 129000, 11036, 11036, 129001] @ str ''   (crane)'') = Inl ValueError"
  by (simp add: format_feedback_def symbols_def str_def feedback_string_to_list_def strip_def lower_def isspace_def)

text \<open>
  C6 (amended): for every classification \<open>c\<close> of length 5 with entries among 0, 1, 2, the
  string that has \<open>g\<close> for 2, \<open>y\<close> for 1 and \<open>b\<close> for 0 at each position decodes to
  \<open>c\<close>; the display string of \<open>format_feedback\<close> is built without error for every guess
  and is rejected by \<open>feedback_string_to_list\<close> with \<open>ValueError\<close>.
\<close>

theorem decode_letter_coding:
  assumes "length c = 5" and "set c \<subseteq> {0, 1, 2}"
  shows "feedback_string_to_list
           (map (\<lambda>f. if f = 2 then of_char CHR ''g''
                      else if f = 1 then of_char CHR ''y'' else of_char CHR ''b'') c) = Inr c \<and>
         (\<forall>guess. \<exists>out. format_feedback guess c = Inr out \<and>
                    feedback_string_to_list out = Inl ValueError)"
proof (intro conjI allI)
  let ?s = "map (\<lambda>f. if f = 2 then of_char CHR ''g''
                      else if f = 1 then of_char CHR ''y'' else of_char CHR ''b'') c :: pystr"
  have sub: "set ?s \<subseteq> {103, 121, 98}" by auto
  have ne: "?s \<noteq> []" using assms(1) by auto
  have "\<forall>ch\<in>set ?s. \<not> isspace ch" using sub by (auto simp: isspace_def)
  then have "\<not> isspace (hd ?s)" "\<not> isspace (last ?s)"
    using ne hd_in_set last_in_set by blast+
  then have st: "strip ?s = ?s" using ne by (rule_tac strip_no_space_ends)
  have lo: "lower ?s = ?s" by (auto simp: lower_def)
  have "\<not> list_ex (\<lambda>ch. ch \<notin> set (str ''gyb'')) ?s"
    using sub by (auto simp: list_ex_iff str_gyb)
  then have "feedback_string_to_list ?s = decode_chars ?s"
    using assms(1) by (simp add: feedback_string_to_list_def Let_def st lo del: of_char_Char)
  also have "\<dots> = Inr (map (\<lambda>ch. if ch = 103 then 2 else if ch = 121 then 1 else 0) ?s)"
    by (rule decode_chars_gyb [OF sub])
  also have "map (\<lambda>ch. if ch = 103 then 2 else if ch = 121 then 1 else 0) ?s = c"
    using assms(2) by (induction c) auto
  finally show "feedback_string_to_list ?s = Inr c" .
next
  fix guess
  let ?cs = "map (\<lambda>f. if f = 2 then 129001 else if f = 1 then 129000 else 11036) c :: pystr"
  let ?out = "?cs @ str ''   ('' @ guess @ str '')''"
  have ff: "format_feedback guess c = Inr ?out"
    by (simp add: format_feedback_def join_symbols_valid [OF assms(2)])
  have ne: "?out \<noteq> []" by (simp add: str_def)
  have "?cs \<noteq> []" using assms(1) by auto
  then have "hd ?out = hd ?cs" by simp
  moreover have "hd ?cs \<in> {129001, 129000, 11036}"
    using \<open>?cs \<noteq> []\<close> by (cases c) auto
  ultimately have h: "\<not> isspace (hd ?out)" by (auto simp: isspace_def)
  have l: "\<not> isspace (last ?out)" by (simp add: str_def isspace_def)
  have "strip ?out = ?out" using ne h l by (rule strip_no_space_ends)
  then have "length (lower (strip ?out)) \<noteq> 5"
    using assms(1) by (simp add: length_lower str_def)
  then have "feedback_string_to_list ?out = Inl ValueError"
    by (simp add: feedback_string_to_list_def Let_def)
  with ff show "\<exists>out. format_feedback guess c = Inr out \<and>
                    feedback_string_to_list out = Inl ValueError" by blast
qed

theorem decode_letter_coding_witness:
  "length [2, 1, 0, 0, 2 :: int] = 5 \<and> set [2, 1, 0, 0, 2 :: int] \<subseteq> {0, 1, 2} \<and>
   feedback_string_to_list (str ''gybbg'') = Inr [2, 1, 0, 0, 2]"
  using decode_letter_coding [of "[2, 1, 0, 0, 2]"] by (simp add: str_def)

section \<open>The consume-once invariant of evaluate_guess\<close>


lemma credited_card:
  "credited L g fb = card {i. i < 5 \<and> (fb ! i = 2 \<or> fb ! i = 1) \<and> g ! i = L}"
proof -
  have "{i. (fb ! i = 2 \<or> fb ! i = 1) \<and> g ! i = L} \<inter> set [0..<5] =
        {i. i < 5 \<and> (fb ! i = 2 \<or> fb ! i = 1) \<and> g ! i = L}"
    by auto
  then show ?thesis
    unfolding credited_def by (simp add: distinct_length_filter del: upt_Suc)
qed

lemma credited_update:
  assumes "i < 5" "fb ! i = 0" "v = 2 \<or> v = 1" "length fb = 5"
  shows "credited L g (fb[i := v]) = credited L g fb + (if g ! i = L then 1 else 0)"
proof -
  let ?A = "{j. j < 5 \<and> (fb ! j = 2 \<or> fb ! j = 1) \<and> g ! j = L}"
  let ?B = "{j. j < 5 \<and> (fb[i := v] ! j = 2 \<or> fb[i := v] ! j = 1) \<and> g ! j = L}"
  have fin: "finite ?A" by simp
  have notin: "i \<notin> ?A" using assms by simp
  have "?B = (if g ! i = L then insert i ?A else ?A)"
    using assms by (auto simp: nth_list_update)
  moreover have "card (insert i ?A) = Suc (card ?A)"
    using fin notin by (rule card_insert_disjoint)
  ultimately show ?thesis
    by (simp add: credited_card)
qed

lemma count_list_consume:
  "k < length sc \<Longrightarrow> sc ! k = Some c \<Longrightarrow>
   count_list (sc[k := None]) (Some L) + (if c = L then 1 else 0) = count_list sc (Some L)"
proof (induction sc arbitrary: k)
  case Nil
  then show ?case by simp
next
  case (Cons x sc)
  then show ?case by (cases k) auto
qed

lemma index_Some:
  "index xs x = Some k \<Longrightarrow> k < length xs \<and> xs ! k = x"
proof (induction xs arbitrary: k)
  case Nil
  then show ?case by simp
next
  case (Cons y ys)
  then show ?case by (auto split: if_splits)
qed

lemma index_mem: "x \<in> set xs \<Longrightarrow> \<exists>k. index xs x = Some k"
  by (induction xs) auto

lemma first_pass_inv:
  assumes "distinct ixs"
    and "\<forall>i\<in>set ixs. i < 5 \<and> i < length g \<and> i < length s"
    and "length fb = 5" and "length sc = length s"
    and "\<forall>i\<in>set ixs. fb ! i = 0 \<and> sc ! i = Some (s ! i)"
    and "\<forall>L. credited L g fb + count_list sc (Some L) = count_list s L"
  shows "\<exists>fb' sc'. first_pass g s ixs (fb, sc) = Inr (fb', sc') \<and> length fb' = 5 \<and>
           (\<forall>L. credited L g fb' + count_list sc' (Some L) = count_list s L)"
  using assms
proof (induction ixs arbitrary: fb sc)
  case Nil
  then show ?case by simp
next
  case (Cons i ixs)
  from Cons.prems have i: "i < 5" "i < length g" "i < length s" "fb ! i = 0" "sc ! i = Some (s ! i)"
    by auto
  show ?case
  proof (cases "g ! i = s ! i")
    case False
    have "\<exists>fb' sc'. first_pass g s ixs (fb, sc) = Inr (fb', sc') \<and> length fb' = 5 \<and>
           (\<forall>L. credited L g fb' + count_list sc' (Some L) = count_list s L)"
      using Cons.prems by (intro Cons.IH) auto
    then show ?thesis using False i by simp
  next
    case True
    have inv: "\<forall>L. credited L g (fb[i := 2]) + count_list (sc[i := None]) (Some L) = count_list s L"
    proof
      fix L
      have a: "credited L g (fb[i := 2]) = credited L g fb + (if g ! i = L then 1 else 0)"
        using i Cons.prems(3) by (intro credited_update) auto
      have b: "count_list (sc[i := None]) (Some L) + (if s ! i = L then 1 else 0) = count_list sc (Some L)"
        using i Cons.prems(4) by (intro count_list_consume) auto
      from Cons.prems(6) have "credited L g fb + count_list sc (Some L) = count_list s L" by blast
      with a b True show "credited L g (fb[i := 2]) + count_list (sc[i := None]) (Some L) = count_list s L"
        by (simp split: if_splits)
    qed
    have rest: "\<forall>j\<in>set ixs. fb[i := 2] ! j = 0 \<and> sc[i := None] ! j = Some (s ! j)"
    proof
      fix j
      assume j: "j \<in> set ixs"
      then have "i \<noteq> j" using Cons.prems(1) by auto
      then show "fb[i := 2] ! j = 0 \<and> sc[i := None] ! j = Some (s ! j)"
        using Cons.prems(5) j by simp
    qed
    have "\<exists>fb' sc'. first_pass g s ixs (fb[i := 2], sc[i := None]) = Inr (fb', sc') \<and> length fb' = 5 \<and>
           (\<forall>L. credited L g fb' + count_list sc' (Some L) = count_list s L)"
      using Cons.prems(1,2,3,4) inv rest by (intro Cons.IH) auto
    then show ?thesis using True i by simp
  qed
qed

lemma second_pass_inv:
  assumes "\<forall>i\<in>set ixs. i < 5 \<and> i < length g"
    and "length fb = 5"
    and "\<forall>L. credited L g fb + count_list sc (Some L) = count_list s L"
  shows "\<exists>fb' sc'. second_pass g ixs (fb, sc) = Inr (fb', sc') \<and> length fb' = 5 \<and>
           (\<forall>L. credited L g fb' + count_list sc' (Some L) = count_list s L)"
  using assms
proof (induction ixs arbitrary: fb sc)
  case Nil
  then show ?case by simp
next
  case (Cons i ixs)
  from Cons.prems have i: "i < 5" "i < length g" by auto
  have keep: "\<exists>fb' sc'. second_pass g ixs (fb, sc) = Inr (fb', sc') \<and> length fb' = 5 \<and>
           (\<forall>L. credited L g fb' + count_list sc' (Some L) = count_list s L)"
    using Cons.prems by (intro Cons.IH) auto
  show ?case
  proof (cases "fb ! i = 0 \<and> Some (g ! i) \<in> set sc")
    case False
    then show ?thesis using keep i by auto
  next
    case True
    then obtain k where k: "index sc (Some (g ! i)) = Some k"
      using index_mem by fastforce
    then have k': "k < length sc" "sc ! k = Some (g ! i)"
      using index_Some by fastforce+
    have inv: "\<forall>L. credited L g (fb[i := 1]) + count_list (sc[k := None]) (Some L) = count_list s L"
    proof
      fix L
      have a: "credited L g (fb[i := 1]) = credited L g fb + (if g ! i = L then 1 else 0)"
        using i True Cons.prems(2) by (intro credited_update) auto
      have b: "count_list (sc[k := None]) (Some L) + (if g ! i = L then 1 else 0) = count_list sc (Some L)"
        using k' by (intro count_list_consume) auto
      from Cons.prems(3) have "credited L g fb + count_list sc (Some L) = count_list s L" by blast
      with a b show "credited L g (fb[i := 1]) + count_list (sc[k := None]) (Some L) = count_list s L"
        by (simp split: if_splits)
    qed
    have "\<exists>fb' sc'. second_pass g ixs (fb[i := 1], sc[k := None]) = Inr (fb', sc') \<and> length fb' = 5 \<and>
           (\<forall>L. credited L g fb' + count_list sc' (Some L) = count_list s L)"
      using Cons.prems(1,2) inv by (intro Cons.IH) auto
    then show ?thesis using True i k by simp
  qed
qed

lemma credited_replicate: "credited L g (replicate 5 0) = 0"
  by (simp add: credited_card)

lemma count_list_map_Some: "count_list (map Some s) (Some L) = count_list s L"
  by (induction s) auto

lemma evaluate_guess_inv:
  assumes "5 \<le> length g" "5 \<le> length s"
  shows "\<exists>fb sc. evaluate_guess g s = Inr fb \<and> length fb = 5 \<and>
           (\<forall>L. credited L g fb + count_list sc (Some L) = count_list s L)"
proof -
  have "\<exists>fb' sc'. first_pass g s [0..<5] (replicate 5 0, map Some s) = Inr (fb', sc') \<and>
          length fb' = 5 \<and> (\<forall>L. credited L g fb' + count_list sc' (Some L) = count_list s L)"
    using assms
    by (intro first_pass_inv) (auto simp: credited_replicate count_list_map_Some simp del: upt_Suc)
  then obtain fb1 sc1 where 1: "first_pass g s [0..<5] (replicate 5 0, map Some s) = Inr (fb1, sc1)"
    "length fb1 = 5" "\<forall>L. credited L g fb1 + count_list sc1 (Some L) = count_list s L"
    by blast
  have "\<exists>fb' sc'. second_pass g [0..<5] (fb1, sc1) = Inr (fb', sc') \<and> length fb' = 5 \<and>
           (\<forall>L. credited L g fb' + count_list sc' (Some L) = count_list s L)"
    using assms 1 by (intro second_pass_inv) (auto simp del: upt_Suc)
  then obtain fb2 sc2 where 2: "second_pass g [0..<5] (fb1, sc1) = Inr (fb2, sc2)"
    "length fb2 = 5" "\<forall>L. credited L g fb2 + count_list sc2 (Some L) = count_list s L"
    by blast
  have "evaluate_guess g s = Inr fb2"
    using 1(1) 2(1) by (simp add: evaluate_guess_def del: upt_Suc)
  with 2 show ?thesis by blast
qed

lemma credited_le_guess:
  assumes "5 \<le> length g"
  shows "credited L g fb \<le> count_list g L"
proof -
  have "{i. i < 5 \<and> (fb ! i = 2 \<or> fb ! i = 1) \<and> g ! i = L} \<subseteq> {i. i < length g \<and> L = g ! i}"
    using assms by auto
  then have "credited L g fb \<le> card {i. i < length g \<and> L = g ! i}"
    unfolding credited_card by (intro card_mono) auto
  then show ?thesis
    by (simp add: count_list_eq_length_filter length_filter_conv_card)
qed

text \<open>
  C1: for all words \<open>g\<close> and \<open>s\<close> of length 5, \<open>evaluate_guess(g, s)\<close> returns a feedback
  of length 5, and for every letter \<open>L\<close> the number of positions marked EXACT or PRESENT
  whose guess letter is \<open>L\<close> is at most the number of occurrences of \<open>L\<close> in \<open>s\<close> and at
  most the number of occurrences of \<open>L\<close> in \<open>g\<close>.
\<close>

theorem evaluate_guess_credit_bound:
  assumes "length g = 5" "length s = 5"
  shows "\<exists>fb. evaluate_guess g s = Inr fb \<and> length fb = 5 \<and>
           (\<forall>L. credited L g fb \<le> count_list s L \<and> credited L g fb \<le> count_list g L)"
proof -
  obtain fb sc where fb: "evaluate_guess g s = Inr fb" "length fb = 5"
    "\<forall>L. credited L g fb + count_list sc (Some L) = count_list s L"
    using evaluate_guess_inv [of g s] assms by auto
  have "credited L g fb \<le> count_list s L" for L
    using fb(3) [rule_format, of L] by linarith
  moreover have "credited L g fb \<le> count_list g L" for L
    using assms by (intro credited_le_guess) simp
  ultimately show ?thesis using fb by blast
qed

theorem evaluate_guess_credit_bound_witness:
  "length (str ''speed'') = 5 \<and> length (str ''erase'') = 5 \<and>
   evaluate_guess (str ''speed'') (str ''erase'') = Inr [1, 0, 1, 1, 0] \<and>
   credited (of_char CHR ''e'') (str ''speed'') [1, 0, 1, 1, 0] = 2 \<and>
   count_list (str ''erase'') (of_char CHR ''e'') = 2 \<and>
   count_list (str ''speed'') (of_char CHR ''e'') = 2"
  using evaluate_guess_credit_bound [of "str ''speed''" "str ''erase''"]
  by (simp add: str_def evaluate_guess_def upt5 replicate5 credited_def)

section \<open>Properties of filter_candidates\<close>

lemma evaluate_guess_ok:
  "5 \<le> length g \<Longrightarrow> 5 \<le> length s \<Longrightarrow> \<exists>fb. evaluate_guess g s = Inr fb"
  using evaluate_guess_inv by blast

lemma filter_loop_eq:
  assumes "\<forall>w\<in>set ws. \<exists>fb. evaluate_guess g w = Inr fb"
  shows "filter_loop ws g fb0 out = Inr (out @ filter (\<lambda>w. evaluate_guess g w = Inr fb0) ws)"
  using assms by (induction ws arbitrary: out) auto

lemma filter_candidates_eq:
  assumes "5 \<le> length g" "\<forall>w\<in>set pool. 5 \<le> length w"
  shows "filter_candidates pool g fb = Inr (filter (\<lambda>w. evaluate_guess g w = Inr fb) pool)"
  using assms unfolding filter_candidates_def
  by (simp add: filter_loop_eq evaluate_guess_ok)

text \<open>
  C2: for every pool of words of length 5 and every guess of length 5, and for every
  observed feedback, \<open>filter_candidates\<close> returns exactly the words \<open>w\<close> of the pool for
  which \<open>evaluate_guess(guess, w)\<close> equals the observed feedback, in the order they have
  in the pool.
\<close>

theorem filter_candidates_retains_iff:
  assumes "length guess = 5" "\<forall>w\<in>set pool. length w = 5"
  shows "filter_candidates pool guess fb =
           Inr (filter (\<lambda>w. evaluate_guess guess w = Inr fb) pool)"
  using assms by (intro filter_candidates_eq) auto

theorem filter_candidates_retains_iff_witness:
  "length (str ''adieu'') = 5 \<and>
   length (str ''crane'') = 5 \<and> length (str ''slate'') = 5 \<and>
   filter_candidates [str ''crane'', str ''slate'', str ''adieu''] (str ''adieu'') [1, 0, 0, 1, 0] =
     Inr [str ''crane'', str ''slate'']"
  using filter_candidates_retains_iff
    [of "str ''adieu''" "[str ''crane'', str ''slate'', str ''adieu'']" "[1, 0, 0, 1, 0]"]
  by (simp add: str_def evaluate_guess_def upt5 replicate5)

text \<open>
  C7: filtering is idempotent: for every pool of words of length 5 and every guess of
  length 5, \<open>filter_candidates\<close> returns a pool, and filtering that pool again with the
  same guess and feedback returns it unchanged.
\<close>

theorem filter_candidates_idempotent:
  assumes "length guess = 5" "\<forall>w\<in>set pool. length w = 5"
  shows "\<exists>out. filter_candidates pool guess fb = Inr out \<and>
               filter_candidates out guess fb = Inr out"
proof -
  let ?out = "filter (\<lambda>w. evaluate_guess guess w = Inr fb) pool"
  have 1: "filter_candidates pool guess fb = Inr ?out"
    using assms by (intro filter_candidates_eq) auto
  have "filter_candidates ?out guess fb = Inr (filter (\<lambda>w. evaluate_guess guess w = Inr fb) ?out)"
    using assms by (intro filter_candidates_eq) auto
  then have "filter_candidates ?out guess fb = Inr ?out" by simp
  with 1 show ?thesis by blast
qed

theorem filter_candidates_idempotent_witness:
  "length (str ''adieu'') = 5 \<and>
   length (str ''crane'') = 5 \<and> length (str ''slate'') = 5 \<and>
   filter_candidates [str ''crane'', str ''slate'', str ''adieu''] (str ''adieu'')
     [1, 0, 0, 1, 0] = Inr [str ''crane'', str ''slate''] \<and>
   filter_candidates [str ''crane'', str ''slate''] (str ''adieu'')
     [1, 0, 0, 1, 0] = Inr [str ''crane'', str ''slate'']"
  using filter_candidates_idempotent
    [of "str ''adieu''" "[str ''crane'', str ''slate'', str ''adieu'']" "[1, 0, 0, 1, 0]"]
  by (simp add: str_def filter_candidates_def evaluate_guess_def upt5 replicate5)

section \<open>Properties of pick_smart\<close>


lemma py_max_Max: "xs \<noteq> [] \<Longrightarrow> py_max xs = Inr (Max (set xs))"
proof (cases xs)
  case Nil
  then show "xs \<noteq> [] \<Longrightarrow> ?thesis" by simp
next
  case (Cons x ys)
  have "(\<lambda>y m. if y > m then y else m) = (max :: int \<Rightarrow> int \<Rightarrow> int)"
    by (intro ext) (simp add: max_def)
  moreover have "fold max ys x = Max (set (x # ys))"
    by (rule Max.set_eq_fold [symmetric])
  ultimately show ?thesis using Cons by simp
qed

lemma spec_vowel_heavy_code:
  assumes "pool \<noteq> []"
  shows "filter (\<lambda>w. vowel_count w = Max (vowel_count ` set pool)) pool = spec_vowel_heavy pool"
  unfolding spec_vowel_heavy_def
proof (rule filter_cong [OF refl])
  fix w
  assume w: "w \<in> set pool"
  let ?M = "Max (vowel_count ` set pool)"
  have fin: "finite (vowel_count ` set pool)" by simp
  have ne: "vowel_count ` set pool \<noteq> {}" using assms by simp
  show "(vowel_count w = ?M) = list_all (\<lambda>v. vowel_count v \<le> vowel_count w) pool"
    unfolding list_all_iff
  proof
    assume "vowel_count w = ?M"
    then show "\<forall>v\<in>set pool. vowel_count v \<le> vowel_count w"
      using Max_ge [OF fin] by auto
  next
    assume a: "\<forall>v\<in>set pool. vowel_count v \<le> vowel_count w"
    have "?M = vowel_count w"
      using w a by (intro Max_eqI) auto
    then show "vowel_count w = ?M" by simp
  qed
qed

lemma spec_vowel_heavy_nonempty: "pool \<noteq> [] \<Longrightarrow> spec_vowel_heavy pool \<noteq> []"
proof -
  assume ne: "pool \<noteq> []"
  then have "Max (vowel_count ` set pool) \<in> vowel_count ` set pool"
    by (intro Max_in) auto
  then obtain w where "w \<in> set pool" "vowel_count w = Max (vowel_count ` set pool)"
    by auto
  then have "w \<in> set (filter (\<lambda>w. vowel_count w = Max (vowel_count ` set pool)) pool)"
    by simp
  then show ?thesis
    unfolding spec_vowel_heavy_code [OF ne] by auto
qed

lemma spec_vowel_heavy_subset: "set (spec_vowel_heavy pool) \<subseteq> set pool"
  by (auto simp: spec_vowel_heavy_def)

lemma fromkeys_apply: "fromkeys ks v c = (if c \<in> set ks then Some v else None)"
  by (induction ks) (auto simp: fromkeys_def)

lemma init_freq_length: "length init_freq = 5"
  by (simp add: init_freq_def)

lemma init_freq_nth:
  "i < 5 \<Longrightarrow> (init_freq ! i) c = (if c \<in> lowercase then Some 0 else None)"
  by (simp add: init_freq_def fromkeys_apply lowercase_def)

lemma count_word_table:
  assumes "length freq = 5" "k + length v \<le> 5" "\<forall>c\<in>set v. c \<in> lowercase"
    and "\<forall>i<5. \<forall>c. (freq ! i) c = (if c \<in> lowercase then Some (T i c) else None)"
  shows "\<exists>freq'. count_word (enumerate k v) freq = Inr freq' \<and> length freq' = 5 \<and>
           (\<forall>i<5. \<forall>c. (freq' ! i) c =
              (if c \<in> lowercase
               then Some (T i c + (if k \<le> i \<and> i < k + length v \<and> v ! (i - k) = c then 1 else 0))
               else None))"
  using assms
proof (induction v arbitrary: k freq T)
  case Nil
  then show ?case by auto
next
  case (Cons x v)
  let ?T = "\<lambda>i c. T i c + (if i = k \<and> c = x then 1 else 0)"
  let ?freq = "freq[k := (freq ! k)(x \<mapsto> T k x + 1)]"
  from Cons.prems have k: "k < 5" "x \<in> lowercase" by auto
  then have look: "(freq ! k) x = Some (T k x)" using Cons.prems(4) by simp
  have tab: "\<forall>i<5. \<forall>c. (?freq ! i) c = (if c \<in> lowercase then Some (?T i c) else None)"
    using Cons.prems(1,4) k by (auto simp: nth_list_update)
  have "\<exists>freq'. count_word (enumerate (Suc k) v) ?freq = Inr freq' \<and> length freq' = 5 \<and>
           (\<forall>i<5. \<forall>c. (freq' ! i) c =
              (if c \<in> lowercase
               then Some (?T i c + (if Suc k \<le> i \<and> i < Suc k + length v \<and> v ! (i - Suc k) = c then 1 else 0))
               else None))"
    using Cons.prems(1,2,3) tab by (intro Cons.IH) auto
  then obtain freq' where f: "count_word (enumerate (Suc k) v) ?freq = Inr freq'" "length freq' = 5"
    "\<forall>i<5. \<forall>c. (freq' ! i) c =
              (if c \<in> lowercase
               then Some (?T i c + (if Suc k \<le> i \<and> i < Suc k + length v \<and> v ! (i - Suc k) = c then 1 else 0))
               else None)"
    by blast
  have step: "count_word (enumerate k (x # v)) freq = Inr freq'"
    using f(1) k look Cons.prems(1) by simp
  have "(freq' ! i) c =
              (if c \<in> lowercase
               then Some (T i c + (if k \<le> i \<and> i < k + length (x # v) \<and> (x # v) ! (i - k) = c then 1 else 0))
               else None)" if "i < 5" for i c
  proof (cases "i = k")
    case True
    then show ?thesis using f(3) that by simp
  next
    case False
    then show ?thesis using f(3) that by (auto simp: nth_Cons' Suc_le_eq)
  qed
  with step f(2) show ?case by blast
qed

lemma count_words_table:
  assumes "length freq = 5" "\<forall>w\<in>set ws. length w \<le> 5 \<and> (\<forall>c\<in>set w. c \<in> lowercase)"
    and "\<forall>i<5. \<forall>c. (freq ! i) c = (if c \<in> lowercase then Some (T i c) else None)"
  shows "\<exists>freq'. count_words ws freq = Inr freq' \<and> length freq' = 5 \<and>
           (\<forall>i<5. \<forall>c. (freq' ! i) c =
              (if c \<in> lowercase then Some (T i c + spec_table ws i c) else None))"
  using assms
proof (induction ws arbitrary: freq T)
  case Nil
  then show ?case by (simp add: spec_table_def)
next
  case (Cons w ws)
  let ?T = "\<lambda>i c. T i c + (if 0 \<le> i \<and> i < 0 + length w \<and> w ! (i - 0) = c then 1 else 0)"
  have "\<exists>freq'. count_word (enumerate 0 w) freq = Inr freq' \<and> length freq' = 5 \<and>
           (\<forall>i<5. \<forall>c. (freq' ! i) c = (if c \<in> lowercase then Some (?T i c) else None))"
    using Cons.prems by (intro count_word_table) auto
  then obtain freq1 where 1: "count_word (enumerate 0 w) freq = Inr freq1" "length freq1 = 5"
    "\<forall>i<5. \<forall>c. (freq1 ! i) c = (if c \<in> lowercase then Some (?T i c) else None)"
    by blast
  have "\<exists>freq'. count_words ws freq1 = Inr freq' \<and> length freq' = 5 \<and>
           (\<forall>i<5. \<forall>c. (freq' ! i) c =
              (if c \<in> lowercase then Some (?T i c + spec_table ws i c) else None))"
    using Cons.prems(2) 1(2,3) by (intro Cons.IH) auto
  then obtain freq2 where 2: "count_words ws freq1 = Inr freq2" "length freq2 = 5"
    "\<forall>i<5. \<forall>c. (freq2 ! i) c =
              (if c \<in> lowercase then Some (?T i c + spec_table ws i c) else None)"
    by blast
  have "?T i c + spec_table ws i c = T i c + spec_table (w # ws) i c" for i c
    by (simp add: spec_table_def)
  with 1(1) 2 show ?case by simp
qed

lemma score_word_sum:
  assumes "length freq = 5"
    and "\<forall>i<5. \<forall>c. (freq ! i) c = (if c \<in> lowercase then Some (F i c) else None)"
    and "w = pre @ v" "length w \<le> 5" "\<forall>c\<in>set w. c \<in> lowercase"
  shows "score_word freq (enumerate (length pre) v) (set pre) acc =
           Inr (acc + (\<Sum>i\<leftarrow>[length pre..<length w].
                         if w ! i \<in> set (take i w) then 0 else F i (w ! i)))"
  using assms(3)
proof (induction v arbitrary: pre acc)
  case Nil
  then show ?case by simp
next
  case (Cons x v)
  let ?k = "length pre"
  have w: "w = (pre @ [x]) @ v" using Cons.prems by simp
  have k: "?k < length w" "w ! ?k = x" "take ?k w = pre" using Cons.prems by auto
  have k5: "?k < 5" using k(1) assms(4) by simp
  have x: "x \<in> lowercase" using Cons.prems assms(5) by simp
  have range: "[?k..<length w] = ?k # [Suc ?k..<length w]"
    using k(1) by (simp add: upt_conv_Cons)
  have IH: "score_word freq (enumerate (Suc ?k) v) (set (pre @ [x])) a =
           Inr (a + (\<Sum>i\<leftarrow>[Suc ?k..<length w].
                         if w ! i \<in> set (take i w) then 0 else F i (w ! i)))" for a
    using Cons.IH [OF w, of a] by simp
  show ?case
  proof (cases "x \<in> set pre")
    case True
    then have "set (pre @ [x]) = set pre" by auto
    with IH [of acc] True k show ?thesis by (simp add: range)
  next
    case False
    have look: "(freq ! ?k) x = Some (F ?k x)" using assms(2) k5 x by simp
    have "set (pre @ [x]) = insert x (set pre)" by simp
    with IH [of "acc + F ?k x"] False k k5 look assms(1) show ?thesis
      by (simp add: range)
  qed
qed

lemma score_word_position_score:
  assumes "length freq = 5"
    and "\<forall>i<5. \<forall>c. (freq ! i) c = (if c \<in> lowercase then Some (spec_table pool i c) else None)"
    and "word w"
  shows "score_word freq (enumerate 0 w) {} 0 = Inr (spec_score pool w)"
proof -
  have "score_word freq (enumerate (length ([] :: pystr)) w) (set []) 0 =
           Inr (0 + (\<Sum>i\<leftarrow>[length ([] :: pystr)..<length w].
                         if w ! i \<in> set (take i w) then 0 else spec_table pool i (w ! i)))"
    using assms by (intro score_word_sum) (auto simp: word_def list_all_iff)
  then show ?thesis using assms(3) by (simp add: spec_score_def word_def del: upt_Suc)
qed

lemma best_loop_first_max:
  assumes "\<forall>w\<in>set ws. score_word freq (enumerate 0 w) {} 0 = Inr (sc w)"
  shows "\<exists>r. best_loop freq ws (b, bw) = Inr r \<and>
           ((r = bw \<and> (\<forall>w\<in>set ws. sc w \<le> b)) \<or>
            (\<exists>k<length ws. r = ws ! k \<and> b < sc (ws ! k) \<and>
               (\<forall>j<length ws. sc (ws ! j) \<le> sc (ws ! k)) \<and>
               (\<forall>j<k. sc (ws ! j) < sc (ws ! k))))"
  using assms
proof (induction ws arbitrary: b bw)
  case Nil
  then show ?case by simp
next
  case (Cons w ws)
  have sw: "score_word freq (enumerate 0 w) {} 0 = Inr (sc w)" using Cons.prems by simp
  have rest: "\<forall>w\<in>set ws. score_word freq (enumerate 0 w) {} 0 = Inr (sc w)"
    using Cons.prems by simp
  let ?b = "if sc w > b then sc w else b"
  let ?bw = "if sc w > b then w else bw"
  obtain r where r: "best_loop freq ws (?b, ?bw) = Inr r"
    and alt: "(r = ?bw \<and> (\<forall>w\<in>set ws. sc w \<le> ?b)) \<or>
            (\<exists>k<length ws. r = ws ! k \<and> ?b < sc (ws ! k) \<and>
               (\<forall>j<length ws. sc (ws ! j) \<le> sc (ws ! k)) \<and>
               (\<forall>j<k. sc (ws ! j) < sc (ws ! k)))"
    using Cons.IH [OF rest, of ?b ?bw] by blast
  have step: "best_loop freq (w # ws) (b, bw) = Inr r"
    using sw r by (simp split: if_splits)
  from alt show ?case
  proof
    assume a: "r = ?bw \<and> (\<forall>w\<in>set ws. sc w \<le> ?b)"
    show ?thesis
    proof (cases "sc w > b")
      case True
      have "\<forall>j<length (w # ws). sc ((w # ws) ! j) \<le> sc w"
        using a True by (auto simp: nth_Cons')
      with a True have "0 < length (w # ws) \<and> r = (w # ws) ! 0 \<and> b < sc ((w # ws) ! 0) \<and>
               (\<forall>j<length (w # ws). sc ((w # ws) ! j) \<le> sc ((w # ws) ! 0)) \<and>
               (\<forall>j<0. sc ((w # ws) ! j) < sc ((w # ws) ! 0))"
        by simp
      with step show ?thesis by blast
    next
      case False
      with a step show ?thesis by auto
    qed
  next
    assume "\<exists>k<length ws. r = ws ! k \<and> ?b < sc (ws ! k) \<and>
               (\<forall>j<length ws. sc (ws ! j) \<le> sc (ws ! k)) \<and>
               (\<forall>j<k. sc (ws ! j) < sc (ws ! k))"
    then obtain k where k: "k < length ws" "r = ws ! k" "?b < sc (ws ! k)"
      "\<forall>j<length ws. sc (ws ! j) \<le> sc (ws ! k)" "\<forall>j<k. sc (ws ! j) < sc (ws ! k)"
      by blast
    have w_lt: "sc w < sc (ws ! k)" "b < sc (ws ! k)"
      using k(3) by (auto split: if_splits)
    have 1: "\<forall>j<length (w # ws). sc ((w # ws) ! j) \<le> sc ((w # ws) ! Suc k)"
      using k(4) w_lt by (auto simp: nth_Cons split: nat.splits)
    have 2: "\<forall>j<Suc k. sc ((w # ws) ! j) < sc ((w # ws) ! Suc k)"
      using k(5) w_lt by (auto simp: nth_Cons split: nat.splits)
    have "Suc k < length (w # ws) \<and> r = (w # ws) ! Suc k \<and> b < sc ((w # ws) ! Suc k)"
      using k w_lt by simp
    with 1 2 step show ?thesis by blast
  qed
qed

lemma spec_score_nonneg: "0 \<le> spec_score pool w"
  unfolding spec_score_def
  by (intro sum_list_nonneg) (auto simp: spec_table_def simp del: upt_Suc)

lemma pick_smart_unfold:
  assumes "pool \<noteq> []"
  shows "pick_smart pool =
          (case spec_vowel_heavy pool of
             [] \<Rightarrow> Inl IndexError
           | w0 # more \<Rightarrow>
               if length (w0 # more) = 1 then Inr w0
               else (case count_words pool init_freq of
                       Inl e \<Rightarrow> Inl e
                     | Inr freq \<Rightarrow> best_loop freq (w0 # more) (- 1, w0)))"
  using assms by (simp add: pick_smart_def py_max_Max spec_vowel_heavy_code)

lemma pick_smart_single:
  assumes "pool \<noteq> []" "length (spec_vowel_heavy pool) = 1"
  shows "pick_smart pool = Inr (spec_vowel_heavy pool ! 0)"
  using assms by (cases "spec_vowel_heavy pool") (auto simp: pick_smart_unfold)

lemma pick_smart_tie:
  assumes "\<forall>w\<in>set pool. word w" "1 < length (spec_vowel_heavy pool)"
  shows "\<exists>k<length (spec_vowel_heavy pool).
           pick_smart pool = Inr (spec_vowel_heavy pool ! k) \<and>
           (\<forall>j<length (spec_vowel_heavy pool).
              spec_score pool (spec_vowel_heavy pool ! j) \<le> spec_score pool (spec_vowel_heavy pool ! k)) \<and>
           (\<forall>j<k. spec_score pool (spec_vowel_heavy pool ! j) < spec_score pool (spec_vowel_heavy pool ! k))"
proof -
  let ?vh = "spec_vowel_heavy pool"
  have ne: "pool \<noteq> []" using assms(2) by (auto simp: spec_vowel_heavy_def)
  obtain w0 more where vh: "?vh = w0 # more" using assms(2) by (cases ?vh) auto
  have "\<exists>freq'. count_words pool init_freq = Inr freq' \<and> length freq' = 5 \<and>
           (\<forall>i<5. \<forall>c. (freq' ! i) c =
              (if c \<in> lowercase then Some (0 + spec_table pool i c) else None))"
    using assms(1)
    by (intro count_words_table) (auto simp: init_freq_length init_freq_nth word_def list_all_iff)
  then obtain freq where freq: "count_words pool init_freq = Inr freq" "length freq = 5"
    "\<forall>i<5. \<forall>c. (freq ! i) c = (if c \<in> lowercase then Some (spec_table pool i c) else None)"
    by auto
  have ps: "pick_smart pool = best_loop freq ?vh (- 1, w0)"
    using assms(2) freq(1) vh by (simp add: pick_smart_unfold [OF ne])
  have sc: "\<forall>w\<in>set ?vh. score_word freq (enumerate 0 w) {} 0 = Inr (spec_score pool w)"
    using assms(1) spec_vowel_heavy_subset freq(2,3) by (auto intro!: score_word_position_score)
  obtain r where r: "best_loop freq ?vh (- 1, w0) = Inr r"
    and alt: "(r = w0 \<and> (\<forall>w\<in>set ?vh. spec_score pool w \<le> - 1)) \<or>
            (\<exists>k<length ?vh. r = ?vh ! k \<and> - 1 < spec_score pool (?vh ! k) \<and>
               (\<forall>j<length ?vh. spec_score pool (?vh ! j) \<le> spec_score pool (?vh ! k)) \<and>
               (\<forall>j<k. spec_score pool (?vh ! j) < spec_score pool (?vh ! k)))"
    using best_loop_first_max [OF sc, of "- 1" w0] by blast
  have "\<not> (\<forall>w\<in>set ?vh. spec_score pool w \<le> - 1)"
    using vh spec_score_nonneg [of pool w0] by auto
  with alt ps r show ?thesis by auto
qed


lemma count_word_no_ValueError: "count_word xs freq \<noteq> Inl ValueError"
  by (induction xs freq rule: count_word.induct) (auto split: option.splits)

lemma count_words_no_ValueError: "count_words ws freq \<noteq> Inl ValueError"
  by (induction ws arbitrary: freq) (auto simp: count_word_no_ValueError split: sum.splits)

lemma score_word_no_ValueError: "score_word freq xs seen score \<noteq> Inl ValueError"
  by (induction freq xs seen score rule: score_word.induct) (auto split: option.splits)

lemma best_loop_no_ValueError: "best_loop freq ws st \<noteq> Inl ValueError"
  by (induction freq ws st rule: best_loop.induct)
     (auto simp: score_word_no_ValueError split: sum.splits)

text \<open>
  C3: for every pool of words in which more than one word attains the maximum vowel count,
  \<open>pick_smart\<close> returns a word of the vowel-heavy subset whose score, taken from the
  position-frequency table of the whole pool with each letter credited once per word, is
  the highest of that subset, and every vowel-heavy word before it has a strictly lower
  score (the first word with the highest score wins).
\<close>

theorem pick_smart_tie_break:
  assumes "list_all word pool" and "1 < length (spec_vowel_heavy pool)"
  shows "\<exists>k<length (spec_vowel_heavy pool).
           pick_smart pool = Inr (spec_vowel_heavy pool ! k) \<and>
           (\<forall>j<length (spec_vowel_heavy pool).
              spec_score pool (spec_vowel_heavy pool ! j) \<le> spec_score pool (spec_vowel_heavy pool ! k)) \<and>
           (\<forall>j<k. spec_score pool (spec_vowel_heavy pool ! j) < spec_score pool (spec_vowel_heavy pool ! k))"
  using assms by (intro pick_smart_tie) (auto simp: list_all_iff)

lemma spec_eval:
  "spec_vowel_heavy [str ''crane'', str ''slate'', str ''crate''] =
     [str ''crane'', str ''slate'', str ''crate'']"
  "spec_score [str ''crane'', str ''slate'', str ''crate''] (str ''crane'') = 11"
  "spec_score [str ''crane'', str ''slate'', str ''crate''] (str ''slate'') = 10"
  "spec_score [str ''crane'', str ''slate'', str ''crate''] (str ''crate'') = 12"
  by (simp_all add: spec_vowel_heavy_def spec_score_def spec_table_def vowel_count_def VOWELS_def
      str_def upt5)

lemma word_eval:
  "word (str ''crane'')" "word (str ''slate'')" "word (str ''crate'')"
  by (simp_all add: word_def lowercase_def str_def)

theorem pick_smart_tie_break_witness:
  "list_all word [str ''crane'', str ''slate'', str ''crate''] \<and>
   spec_vowel_heavy [str ''crane'', str ''slate'', str ''crate''] =
     [str ''crane'', str ''slate'', str ''crate''] \<and>
   pick_smart [str ''crane'', str ''slate'', str ''crate''] = Inr (str ''crate'') \<and>
   spec_score [str ''crane'', str ''slate'', str ''crate''] (str ''crane'') = 11 \<and>
   spec_score [str ''crane'', str ''slate'', str ''crate''] (str ''slate'') = 10 \<and>
   spec_score [str ''crane'', str ''slate'', str ''crate''] (str ''crate'') = 12"
proof -
  let ?pool = "[str ''crane'', str ''slate'', str ''crate'']"
  have w: "list_all word ?pool" by (simp add: word_eval)
  have l: "1 < length (spec_vowel_heavy ?pool)" by (simp add: spec_eval)
  from pick_smart_tie_break [OF w l] obtain k where k: "k < length ?pool" "pick_smart ?pool = Inr (?pool ! k)"
    "\<forall>j<length ?pool. spec_score ?pool (?pool ! j) \<le> spec_score ?pool (?pool ! k)"
    unfolding spec_eval(1) by blast
  from k(1) have "k = 0 \<or> k = 1 \<or> k = 2" by auto
  moreover have top: "spec_score ?pool (?pool ! 2) \<le> spec_score ?pool (?pool ! k)"
  proof -
    have "(2::nat) < length ?pool" by simp
    from k(3) [rule_format, OF this] show ?thesis .
  qed
  have "k \<noteq> 0"
  proof
    assume "k = 0"
    with top show False by (simp add: spec_eval)
  qed
  moreover have "k \<noteq> 1"
  proof
    assume "k = 1"
    with top show False by (simp add: spec_eval)
  qed
  ultimately have "k = 2" by auto
  with k(2) have "pick_smart ?pool = Inr (str ''crate'')" by simp
  with w show ?thesis by (simp add: spec_eval)
qed

text \<open>
  C9: for every non-empty pool of words \<open>pick_smart\<close> returns a word that is a member
  of the pool, and on a pool of exactly one word it returns that word.
\<close>

theorem pick_smart_member:
  "(pool \<noteq> [] \<and> list_all word pool \<longrightarrow> (\<exists>w. pick_smart pool = Inr w \<and> w \<in> set pool)) \<and>
   pick_smart [w0] = Inr w0"
proof (intro conjI impI)
  assume a: "pool \<noteq> [] \<and> list_all word pool"
  then have ne: "spec_vowel_heavy pool \<noteq> []" by (simp add: spec_vowel_heavy_nonempty)
  show "\<exists>w. pick_smart pool = Inr w \<and> w \<in> set pool"
  proof (cases "length (spec_vowel_heavy pool) = 1")
    case True
    then have "pick_smart pool = Inr (spec_vowel_heavy pool ! 0)"
      using a by (intro pick_smart_single) auto
    moreover have "spec_vowel_heavy pool ! 0 \<in> set (spec_vowel_heavy pool)"
      using True by (intro nth_mem) simp
    ultimately show ?thesis using spec_vowel_heavy_subset by blast
  next
    case False
    with ne have "1 < length (spec_vowel_heavy pool)"
      by (cases "spec_vowel_heavy pool") auto
    then obtain k where "k < length (spec_vowel_heavy pool)"
      "pick_smart pool = Inr (spec_vowel_heavy pool ! k)"
      using pick_smart_tie [of pool] a by (auto simp: list_all_iff)
    then show ?thesis using spec_vowel_heavy_subset nth_mem by blast
  qed
next
  have "spec_vowel_heavy [w0] = [w0]" by (simp add: spec_vowel_heavy_def)
  then show "pick_smart [w0] = Inr w0"
    using pick_smart_single [of "[w0]"] by simp
qed

theorem pick_smart_member_witness:
  "[str ''crane'', str ''slate'', str ''adieu''] \<noteq> [] \<and>
   list_all word [str ''crane'', str ''slate'', str ''adieu''] \<and>
   pick_smart [str ''crane'', str ''slate'', str ''adieu''] = Inr (str ''adieu'') \<and>
   str ''adieu'' \<in> set [str ''crane'', str ''slate'', str ''adieu''] \<and>
   pick_smart [str ''crane''] = Inr (str ''crane'')"
  using pick_smart_member [of "[str ''crane'', str ''slate'', str ''adieu'']" "str ''crane''"]
  by (simp add: word_def lowercase_def pick_smart_def vowel_count_def VOWELS_def str_def)

text \<open>
  C10: on the empty pool \<open>pick_smart\<close> raises \<open>ValueError\<close>, the exception of \<open>max\<close> on an
  empty sequence, and returns no word; on a non-empty pool it never raises that exception.
\<close>

theorem pick_smart_empty:
  "pick_smart [] = Inl ValueError \<and> (pool \<noteq> [] \<longrightarrow> pick_smart pool \<noteq> Inl ValueError)"
proof (intro conjI impI)
  show "pick_smart [] = Inl ValueError" by (simp add: pick_smart_def)
next
  assume "pool \<noteq> []"
  then show "pick_smart pool \<noteq> Inl ValueError"
    by (auto simp: pick_smart_unfold count_words_no_ValueError best_loop_no_ValueError
        simp del: best_loop.simps split: list.splits sum.splits)
qed

theorem pick_smart_empty_witness:
  "pick_smart [] = Inl ValueError \<and>
   [str ''crane'', str ''slate'', str ''Crate''] \<noteq> [] \<and>
   pick_smart [str ''crane'', str ''slate'', str ''Crate''] = Inl KeyError \<and>
   pick_smart [str ''crane'', str ''slate'', str ''Crate''] \<noteq> Inl ValueError"
  using pick_smart_empty [of "[str ''crane'', str ''slate'', str ''Crate'']"]
  by (simp add: pick_smart_def vowel_count_def VOWELS_def str_def init_freq_def fromkeys_def
      replicate5)

end
